theory Spec2Isabelle
  imports Main "HOL-Library.Sublist"
begin

section \<open>Errors\<close>

text \<open>
  The exceptions of \<^verbatim>\<open>pyproject.py\<close> that the resolvers raise, and the Python built-in
  exceptions that a lookup raises (\<^verbatim>\<open>parents[-1]\<close> on an empty tuple, a missing
  dictionary key, the \<^verbatim>\<open>ValueError\<close> of a variable without a value, the \<^verbatim>\<open>OSError\<close> of
  a file that cannot be read). An exception carries what its constructor is given.
\<close>

datatype error =
    CircularDependencyError string string
  | UnknownTaskReferenceError string string
  | IndexError
  | KeyError string
  | ValueError string
  | OSError string

section \<open>Variables\<close>

text \<open>
  What a variable reads when its value is asked for: the process environment
  \<^verbatim>\<open>os.environ\<close>, and of the file system what \<^verbatim>\<open>Path.exists()\<close> and \<^verbatim>\<open>Path.read_text()\<close>
  answer for a path: whether it exists, and its text or the error of reading it (a
  directory exists and cannot be read). A record that extends \<open>world\<close> stands for a
  larger state of the system.
\<close>

record world =
  environ :: "string \<rightharpoonup> string"
  path_exists :: "string \<Rightarrow> bool"
  read_text :: "string \<Rightarrow> error + string"

text \<open>\<^verbatim>\<open>_VariableDefinition\<close>, with fields \<^verbatim>\<open>default\<close>, \<^verbatim>\<open>env\<close>, \<^verbatim>\<open>file\<close> and \<^verbatim>\<open>secret\<close>.\<close>

record VariableDefinition =
  var_default :: "string option"
  var_env :: "string option"
  var_file :: "string option"
  var_secret :: bool

text \<open>
  \<^verbatim>\<open>Variable\<close>: a getter and the secret flag. The getter is any callable from an optional
  override to a string; it may read the state \<open>'s\<close> of the system and may raise.
\<close>

record 's Variable =
  getter :: "'s \<Rightarrow> string option \<Rightarrow> error + string"
  secret :: bool

text \<open>\<^verbatim>\<open>Variable.get(override, dry_run)\<close>; \<^verbatim>\<open>"*" * len(value)\<close> is \<open>replicate\<close>.\<close>

definition Variable_get ::
  "'s Variable \<Rightarrow> 's \<Rightarrow> string option \<Rightarrow> bool \<Rightarrow> error + string" where
  "Variable_get self s override dry_run =
     (case getter self s override of
        Inl e \<Rightarrow> Inl e
      | Inr v \<Rightarrow>
          if dry_run \<and> secret self then Inr (replicate (length v) CHR ''*'') else Inr v)"

text \<open>The message \<^verbatim>\<open>f"variable '{name}': value is not defined."\<close>.\<close>

definition value_not_defined :: "string \<Rightarrow> string" where
  "value_not_defined name =
     ''variable '' @ [CHR 0x27] @ name @ [CHR 0x27] @ '': value is not defined.''"

text \<open>The closure \<^verbatim>\<open>getter\<close> that \<^verbatim>\<open>getter_factory(name, env, file, default)\<close> returns.\<close>

definition getter_factory ::
  "string \<Rightarrow> string option \<Rightarrow> string option \<Rightarrow> string option \<Rightarrow>
   'a world_scheme \<Rightarrow> string option \<Rightarrow> error + string" where
  "getter_factory name env file dflt w override =
     (if override \<noteq> None then Inr (the override)
      else if env \<noteq> None \<and> the env \<in> dom (environ w) then Inr (the (environ w (the env)))
      else if file \<noteq> None \<and> path_exists w (the file) then read_text w (the file)
      else if dflt \<noteq> None then Inr (the dflt)
      else Inl (ValueError (value_not_defined name)))"

text \<open>The \<^verbatim>\<open>Variable\<close> that the loop of \<^verbatim>\<open>_resolve_all_variables\<close> builds for one definition.\<close>

definition resolve_variable :: "string \<Rightarrow> VariableDefinition \<Rightarrow> 'a world_scheme Variable" where
  "resolve_variable name d =
     \<lparr>getter = getter_factory name (var_env d) (var_file d) (var_default d),
      secret = var_secret d\<rparr>"



section \<open>Task definitions and their resolution\<close>

text \<open>
  \<^verbatim>\<open>_TaskCommand\<close> holds a list of command strings, \<^verbatim>\<open>_TaskReference\<close> the name of
  another task; a \<^verbatim>\<open>_TaskDefinition\<close> is a list of both, a \<^verbatim>\<open>Task\<close> a list of
  command strings. The graph is a dictionary from task names to definitions: an
  association list in insertion order, read with \<^const>\<open>map_of\<close>.
\<close>

datatype task_item =
    TaskCommand (cmd_steps: "string list")
  | TaskReference (ref_name: string)

datatype TaskDefinition = TaskDefinition (def_steps: "task_item list")

datatype Task = Task (steps: "string list")

type_synonym graph = "(string \<times> TaskDefinition) list"

text \<open>\<^verbatim>\<open>parents = parents or tuple()\<close>: \<^verbatim>\<open>None\<close> and the empty tuple both give \<^verbatim>\<open>()\<close>.\<close>

fun parents_or_empty :: "string list option \<Rightarrow> string list" where
  "parents_or_empty None = []"
| "parents_or_empty (Some ps) = ps"

text \<open>\<^verbatim>\<open>parents[-1]\<close> raises \<^verbatim>\<open>IndexError\<close> on the empty tuple.\<close>

definition last_parent :: "string list \<Rightarrow> error + string" where
  "last_parent ps = (if ps = [] then Inl IndexError else Inr (last ps))"

text \<open>A key of the graph that is no ancestor yet: taking it as an ancestor leaves fewer.\<close>

lemma card_unvisited_less:
  assumes "n \<notin> set ps" and "map_of g n = Some d"
  shows "card (fst ` set g - set (ps @ [n])) < card (fst ` set g - set ps)"
proof -
  have "n \<in> fst ` set g"
    using assms(2) by (metis map_of_SomeD fst_conv image_eqI)
  then have "fst ` set g - set (ps @ [n]) \<subset> fst ` set g - set ps"
    using assms(1) by auto
  then show ?thesis
    by (simp add: psubset_card_mono)
qed

text \<open>
  \<^verbatim>\<open>_resolve_task\<close>. The loop over \<^verbatim>\<open>definition.steps\<close> is \<open>resolve_steps\<close>, with the
  list \<^verbatim>\<open>resolved\<close> as its accumulator; an exception of a recursive call leaves the loop.
\<close>

function resolve_task :: "graph \<Rightarrow> string \<Rightarrow> string list option \<Rightarrow> error + Task"
  and resolve_steps ::
    "graph \<Rightarrow> string list \<Rightarrow> string list \<Rightarrow> task_item list \<Rightarrow> error + string list"
where
  "resolve_task graph task_name parents =
     (if task_name \<in> set (parents_or_empty parents) then
        (case last_parent (parents_or_empty parents) of
           Inl e \<Rightarrow> Inl e
         | Inr p \<Rightarrow> Inl (CircularDependencyError p task_name))
      else
        (case map_of graph task_name of
           None \<Rightarrow>
             (case last_parent (parents_or_empty parents) of
                Inl e \<Rightarrow> Inl e
              | Inr p \<Rightarrow> Inl (UnknownTaskReferenceError task_name p))
         | Some defn \<Rightarrow>
             (case resolve_steps graph (parents_or_empty parents @ [task_name]) []
                     (def_steps defn) of
                Inl e \<Rightarrow> Inl e
              | Inr resolved \<Rightarrow> Inr (Task resolved))))"
| "resolve_steps graph parents resolved [] = Inr resolved"
| "resolve_steps graph parents resolved (TaskReference n # items) =
     (case resolve_task graph n (Some parents) of
        Inl e \<Rightarrow> Inl e
      | Inr dep \<Rightarrow> resolve_steps graph parents (resolved @ steps dep) items)"
| "resolve_steps graph parents resolved (TaskCommand ss # items) =
     resolve_steps graph parents (resolved @ ss) items"
  by pat_completeness auto

text \<open>
  Every recursive call of \<^verbatim>\<open>_resolve_task\<close> has one more ancestor, all of them distinct keys
  of the graph, so the number of keys that are not ancestors decreases; within one task the
  loop consumes its steps.
\<close>

termination
  apply (relation "inv_image (less_than <*lex*> less_than)
      (\<lambda>x. case x of
         Inl (g, n, p) \<Rightarrow> (card (fst ` set g - set (parents_or_empty p)), 0)
       | Inr (g, ps, acc, items) \<Rightarrow> (card (fst ` set g - set ps), Suc (length items)))")
  subgoal by (intro wf_inv_image wf_lex_prod wf_less_than)
  subgoal for graph task_name parents defn
    using card_unvisited_less[of task_name "parents_or_empty parents" graph defn] by simp
  subgoal by simp
  subgoal by simp
  subgoal by simp
  done

declare resolve_task.simps [simp del]

section \<open>The configuration and the substitution of variables\<close>

text \<open>\<^verbatim>\<open>Config\<close>: the dictionaries \<^verbatim>\<open>tasks\<close> and \<^verbatim>\<open>variables\<close>.\<close>

record 's Config =
  cfg_tasks :: "string \<rightharpoonup> Task"
  cfg_variables :: "string \<rightharpoonup> 's Variable"

text \<open>
  \<^verbatim>\<open>VARIABLE_PATTERN = re.compile(r"\${var\.([a-zA-Z0-9-_]*)}")\<close>. The class holds the
  letters, the digits, the hyphen and the underscore. A match at the start of \<open>s\<close> is the
  text \<^verbatim>\<open>${var.\<close>, the longest run of characters of the class, and a closing brace: the
  brace is not in the class, so no shorter run can be followed by it. The result is
  the name (the group) and the text after the match.
\<close>

definition is_name_char :: "char \<Rightarrow> bool" where
  "is_name_char c =
     (c \<in> set ''abcdefghijklmnopqrstuvwxyzABCDEFGHIJKLMNOPQRSTUVWXYZ0123456789-_'')"

definition VARIABLE_PATTERN_match :: "string \<Rightarrow> (string \<times> string) option" where
  "VARIABLE_PATTERN_match s =
     (if prefix ''${var.'' s then
        (case dropWhile is_name_char (drop 6 s) of
           [] \<Rightarrow> None
         | c # rest \<Rightarrow>
             if c = CHR ''}'' then Some (takeWhile is_name_char (drop 6 s), rest) else None)
      else None)"

lemma match_variable_shorter:
  assumes "VARIABLE_PATTERN_match s = Some (name, rest)"
  shows "length rest < length s"
proof -
  from assms have "dropWhile is_name_char (drop 6 s) = CHR ''}'' # rest"
    by (auto simp: VARIABLE_PATTERN_match_def split: if_splits list.splits)
  then have "length (dropWhile is_name_char (drop 6 s)) = Suc (length rest)"
    by simp
  moreover have "length (dropWhile is_name_char (drop 6 s)) \<le> length (drop 6 s)"
    by (rule length_dropWhile_le)
  ultimately show ?thesis
    by simp
qed

text \<open>
  \<^verbatim>\<open>VARIABLE_PATTERN.findall(step)\<close>: the names of the matches found from left to right,
  the search going on after each match.
\<close>

function findall :: "string \<Rightarrow> string list" where
  "findall s =
     (if s = [] then []
      else case VARIABLE_PATTERN_match s of
             Some (name, rest) \<Rightarrow> name # findall rest
           | None \<Rightarrow> findall (tl s))"
  by pat_completeness auto
termination
  by (relation "measure length") (auto simp: match_variable_shorter)

text \<open>
  \<^verbatim>\<open>s.replace(old, new)\<close>: every occurrence of \<open>old\<close> found from left to right, the search
  going on after each occurrence, becomes \<open>new\<close>; for the empty \<open>old\<close>, \<open>new\<close> is put
  before every character and at the end.
\<close>

function replace_str :: "string \<Rightarrow> string \<Rightarrow> string \<Rightarrow> string" where
  "replace_str old new s =
     (if old = [] then new @ concat (map (\<lambda>c. c # new) s)
      else if s = [] then []
      else if prefix old s then new @ replace_str old new (drop (length old) s)
      else hd s # replace_str old new (tl s))"
  by pat_completeness auto
termination
  by (relation "measure (\<lambda>(old, new, s). length s)") auto

declare findall.simps [simp del] replace_str.simps [simp del]

text \<open>The text \<^verbatim>\<open>f"${{var.{variable_name}}}"\<close>.\<close>

definition placeholder :: "string \<Rightarrow> string" where
  "placeholder variable_name = ''${var.'' @ variable_name @ ''}''"

text \<open>
  \<^verbatim>\<open>Config.get_task\<close>. The inner loop over \<^verbatim>\<open>to_replace\<close> is \<open>replace_variables\<close>: a name
  that is no key of \<^verbatim>\<open>self.variables\<close> raises \<^verbatim>\<open>KeyError\<close>, and \<^verbatim>\<open>Variable.get\<close> is called
  with the override of the name, if any, and without \<^verbatim>\<open>dry_run\<close>, which is then false. The
  outer loop over the steps of the task is \<open>get_task_steps\<close>, with the steps of
  \<^verbatim>\<open>resolved_task\<close> as its accumulator.
\<close>

fun replace_variables ::
  "'s Config \<Rightarrow> 's \<Rightarrow> (string \<rightharpoonup> string) \<Rightarrow> string \<Rightarrow> string list \<Rightarrow> error + string" where
  "replace_variables self s override_variables step [] = Inr step"
| "replace_variables self s override_variables step (variable_name # to_replace) =
     (case cfg_variables self variable_name of
        None \<Rightarrow> Inl (KeyError variable_name)
      | Some variable \<Rightarrow>
          (case Variable_get variable s (override_variables variable_name) False of
             Inl e \<Rightarrow> Inl e
           | Inr variable_value \<Rightarrow>
               replace_variables self s override_variables
                 (replace_str (placeholder variable_name) variable_value step) to_replace))"

fun get_task_steps ::
  "'s Config \<Rightarrow> 's \<Rightarrow> (string \<rightharpoonup> string) \<Rightarrow> string list \<Rightarrow> string list \<Rightarrow> error + Task" where
  "get_task_steps self s override_variables resolved [] = Inr (Task resolved)"
| "get_task_steps self s override_variables resolved (step # rest) =
     (case replace_variables self s override_variables step (findall step) of
        Inl e \<Rightarrow> Inl e
      | Inr step' \<Rightarrow> get_task_steps self s override_variables (resolved @ [step']) rest)"

definition get_task ::
  "'s Config \<Rightarrow> 's \<Rightarrow> string \<Rightarrow> (string \<rightharpoonup> string) \<Rightarrow> error + Task" where
  "get_task self s task_name override_variables =
     (case cfg_tasks self task_name of
        None \<Rightarrow> Inl (KeyError task_name)
      | Some task \<Rightarrow> get_task_steps self s override_variables [] (steps task))"

section \<open>The service\<close>

text \<open>\<^verbatim>\<open>str(n)\<close> of an integer, as an f-string formats it: decimal digits and the sign.\<close>

function str_nat :: "nat \<Rightarrow> string" where
  "str_nat n =
     (if n < 10 then [''0123456789'' ! n]
      else str_nat (n div 10) @ [''0123456789'' ! (n mod 10)])"
  by pat_completeness auto
termination
  by (relation "measure id") auto

declare str_nat.simps [simp del]

definition str_int :: "int \<Rightarrow> string" where
  "str_int i = (if i < 0 then CHR ''-'' # str_nat (nat (- i)) else str_nat (nat i))"

text \<open>
  A list of strings as an f-string formats it: the \<^verbatim>\<open>repr\<close> of each element, separated by
  a comma and a space, in brackets. The \<^verbatim>\<open>repr\<close> of a string is Python's own (quotes and
  escapes) and is taken as the parameter \<open>str_repr\<close>.
\<close>

fun join :: "string \<Rightarrow> string list \<Rightarrow> string" where
  "join sep [] = []"
| "join sep [x] = x"
| "join sep (x # y # ys) = x @ sep @ join sep (y # ys)"

definition list_repr :: "(string \<Rightarrow> string) \<Rightarrow> string list \<Rightarrow> string" where
  "list_repr str_repr xs = ''['' @ join '', '' (map str_repr xs) @ '']''"

text \<open>\<^verbatim>\<open>Request\<close>, with fields \<^verbatim>\<open>tasks\<close>, \<^verbatim>\<open>variables\<close> and \<^verbatim>\<open>dry_run\<close>.\<close>

record Request =
  req_tasks :: "string list"
  req_variables :: "string \<rightharpoonup> string"
  req_dry_run :: bool

text \<open>
  \<^verbatim>\<open>Service\<close>: the configuration and the executor. \<^verbatim>\<open>Executor.run\<close> is abstract: a command
  run on the system gives an exit code and leaves the system in a new state. The
  output is part of the state of a run.
\<close>

record 's Service =
  config :: "'s Config"
  executor :: "string \<Rightarrow> 's \<Rightarrow> int \<times> 's"

text \<open>
  The state of a run: the lines written to \<^verbatim>\<open>stdout\<close> and to \<^verbatim>\<open>stderr\<close>, the state of the
  system, and the log \<open>calls\<close> of the commands the executor was given, each with its exit
  code. The log is kept for the claims only, as the stub executors of the tests keep
  \<^verbatim>\<open>called_with\<close>; nothing reads it.
\<close>

record 's run_state =
  stdout :: "string list"
  stderr :: "string list"
  calls :: "(string \<times> int) list"
  system :: 's

definition Output_write :: "string \<Rightarrow> 's run_state \<Rightarrow> 's run_state" where
  "Output_write content st = st\<lparr>stdout := stdout st @ [content]\<rparr>"

definition Output_write_error :: "string \<Rightarrow> 's run_state \<Rightarrow> 's run_state" where
  "Output_write_error content st = st\<lparr>stderr := stderr st @ [content]\<rparr>"

definition Executor_run :: "'s Service \<Rightarrow> string \<Rightarrow> 's run_state \<Rightarrow> int \<times> 's run_state" where
  "Executor_run self cmd st =
     (case executor self cmd (system st) of
        (return_code, s') \<Rightarrow>
          (return_code, st\<lparr>calls := calls st @ [(cmd, return_code)], system := s'\<rparr>))"

text \<open>
  The two messages of \<^verbatim>\<open>Service.execute\<close>. The message of the unknown tasks is built for a
  list that is not empty: \<^verbatim>\<open>unknown_tasks[0]\<close> is its head.
\<close>

definition task_failed :: "string \<Rightarrow> int \<Rightarrow> string" where
  "task_failed task_name return_code =
     ''task: error: task '' @ task_name @ '' failed with exit code '' @ str_int return_code"

definition tasks_do_not_exist :: "(string \<Rightarrow> string) \<Rightarrow> string list \<Rightarrow> string" where
  "tasks_do_not_exist str_repr unknown_tasks =
     (if length unknown_tasks > 1 then
        ''task: error: tasks do not exist: '' @ list_repr str_repr unknown_tasks
      else
        ''task: error: task do not exist: '' @ [CHR 0x27] @ hd unknown_tasks @ [CHR 0x27])"

text \<open>
  \<^verbatim>\<open>Service.execute\<close>. The loop over the commands of one task is \<open>run_commands\<close>; it gives
  the exit code when a command fails and the method returns. The loop over the requested
  tasks is \<open>run_tasks\<close>; an exception of \<^verbatim>\<open>get_task\<close> leaves the method.
\<close>

fun run_commands ::
  "'s Service \<Rightarrow> Request \<Rightarrow> string \<Rightarrow> string list \<Rightarrow> 's run_state \<Rightarrow>
   int option \<times> 's run_state" where
  "run_commands self request task_name [] st = (None, st)"
| "run_commands self request task_name (command # rest) st =
     (if req_dry_run request then
        run_commands self request task_name rest (Output_write command st)
      else
        (case Executor_run self command st of
           (return_code, st') \<Rightarrow>
             if return_code \<noteq> 0 then
               (Some return_code, Output_write_error (task_failed task_name return_code) st')
             else run_commands self request task_name rest st'))"

fun run_tasks ::
  "'s Service \<Rightarrow> Request \<Rightarrow> string list \<Rightarrow> 's run_state \<Rightarrow>
   (error + int) \<times> 's run_state" where
  "run_tasks self request [] st = (Inr 0, st)"
| "run_tasks self request (task_name # rest) st =
     (case get_task (config self) (system st) task_name (req_variables request) of
        Inl e \<Rightarrow> (Inl e, st)
      | Inr task \<Rightarrow>
          (case run_commands self request task_name (steps task) st of
             (Some return_code, st') \<Rightarrow> (Inr return_code, st')
           | (None, st') \<Rightarrow> run_tasks self request rest st'))"

definition execute ::
  "(string \<Rightarrow> string) \<Rightarrow> 's Service \<Rightarrow> Request \<Rightarrow> 's run_state \<Rightarrow>
   (error + int) \<times> 's run_state" where
  "execute str_repr self request st =
     (let unknown_tasks =
            filter (\<lambda>task_name. task_name \<notin> dom (cfg_tasks (config self))) (req_tasks request)
      in if unknown_tasks \<noteq> [] then
           (Inr 1, Output_write_error (tasks_do_not_exist str_repr unknown_tasks) st)
         else run_tasks self request (req_tasks request) st)"

section \<open>Notions and examples for the claims\<close>

subsection \<open>Resolution of tasks\<close>


text \<open>A step resolves under the ancestors \<open>p\<close> when it is a command, or a reference whose
  resolution under \<open>p\<close> raises nothing.\<close>

fun resolves :: "graph \<Rightarrow> string list option \<Rightarrow> task_item \<Rightarrow> bool" where
  "resolves g p (TaskCommand ss) = True"
| "resolves g p (TaskReference n) = (\<not> isl (resolve_task g n p))"

text \<open>
  The expansion of task \<open>T\<close> under the ancestors \<open>ps\<close> reaches its reference to \<open>n\<close>: \<open>T\<close>
  is not an ancestor, it is a key of the graph, \<open>n\<close> is among its steps, and every step
  before the first reference to \<open>n\<close> resolves.
\<close>

definition reaches_reference :: "graph \<Rightarrow> string list \<Rightarrow> string \<Rightarrow> string \<Rightarrow> bool" where
  "reaches_reference g ps T n =
     (T \<notin> set ps \<and>
      (case map_of g T of
         None \<Rightarrow> False
       | Some d \<Rightarrow>
           TaskReference n \<in> set (def_steps d) \<and>
           list_all (resolves g (Some (ps @ [T])))
             (takeWhile (\<lambda>i. i \<noteq> TaskReference n) (def_steps d))))"

text \<open>
  The expansion that starts at \<open>T\<close> under the ancestors \<open>ps\<close> descends along the chain of
  references \<open>T \<rightarrow> n\<^sub>1 \<rightarrow> n\<^sub>2 \<rightarrow> \<dots>\<close>, reaching each of them.
\<close>

fun follows_chain :: "graph \<Rightarrow> string list \<Rightarrow> string \<Rightarrow> string list \<Rightarrow> bool" where
  "follows_chain g ps T [] = True"
| "follows_chain g ps T (n # rest) =
     (reaches_reference g ps T n \<and> follows_chain g (ps @ [T]) n rest)"

text \<open>
  Task \<open>T\<close> refers to \<open>n\<close>: it is a key of the graph and \<open>n\<close> is among its steps. A chain of
  references \<open>T \<rightarrow> n\<^sub>1 \<rightarrow> n\<^sub>2 \<rightarrow> \<dots>\<close> of the graph.
\<close>

definition refers_to :: "graph \<Rightarrow> string \<Rightarrow> string \<Rightarrow> bool" where
  "refers_to g T n =
     (case map_of g T of None \<Rightarrow> False | Some d \<Rightarrow> TaskReference n \<in> set (def_steps d))"

fun refers_chain :: "graph \<Rightarrow> string \<Rightarrow> string list \<Rightarrow> bool" where
  "refers_chain g T [] = True"
| "refers_chain g T (n # rest) = (refers_to g T n \<and> refers_chain g n rest)"

subsection \<open>Variables\<close>



subsection \<open>The service\<close>

text \<open>The requested names that are no task of the configuration, in the order of the request.\<close>

definition unknown_tasks :: "'s Service \<Rightarrow> Request \<Rightarrow> string list" where
  "unknown_tasks self request =
     filter (\<lambda>task_name. cfg_tasks (config self) task_name = None) (req_tasks request)"


text \<open>The configuration with the secret flag of every variable set to \<open>b\<close>.\<close>

definition set_secrets :: "bool \<Rightarrow> 's Config \<Rightarrow> 's Config" where
  "set_secrets b cfg =
     cfg\<lparr>cfg_variables := (\<lambda>n. map_option (\<lambda>v. v\<lparr>secret := b\<rparr>) (cfg_variables cfg n))\<rparr>"

text \<open>The commands of a task as \<^verbatim>\<open>get_task\<close> gives them.\<close>

definition resolved_commands ::
  "'s Config \<Rightarrow> 's \<Rightarrow> (string \<rightharpoonup> string) \<Rightarrow> string \<Rightarrow> string list" where
  "resolved_commands cfg s ov task_name =
     (case get_task cfg s task_name ov of Inl e \<Rightarrow> [] | Inr task \<Rightarrow> steps task)"

subsection \<open>The substitution of variables\<close>

text \<open>
  A step read from left to right as \<^verbatim>\<open>VARIABLE_PATTERN\<close> reads it: the occurrences of
  placeholders, each with its name, and the characters between them.
\<close>

datatype token = Lit char | Ph string











subsection \<open>Examples\<close>



definition secret_bar :: VariableDefinition where
  "secret_bar =
     \<lparr>var_default = Some ''bar'', var_env = None, var_file = None, var_secret = True\<rparr>"

definition empty_world :: world where
  "empty_world =
     \<lparr>environ = Map.empty, path_exists = (\<lambda>p. False),
      read_text = (\<lambda>p. Inl (OSError p))\<rparr>"



definition quoted :: "string \<Rightarrow> string" where
  "quoted s = [CHR 0x27] @ s @ [CHR 0x27]"

definition start :: "'s \<Rightarrow> 's run_state" where
  "start s = \<lparr>stdout = [], stderr = [], calls = [], system = s\<rparr>"

definition no_tasks :: "nat Service" where
  "no_tasks =
     \<lparr>config = \<lparr>cfg_tasks = Map.empty, cfg_variables = Map.empty\<rparr>,
      executor = (\<lambda>cmd n. (0, Suc n))\<rparr>"


definition request_unknown :: Request where
  "request_unknown =
     \<lparr>req_tasks = [''unknown-task-1'', ''unknown-task-2''], req_variables = Map.empty,
      req_dry_run = False\<rparr>"


definition secret_service :: "world Service" where
  "secret_service =
     \<lparr>config =
        \<lparr>cfg_tasks = [''deploy'' \<mapsto> Task [''login ${var.token}'']],
         cfg_variables = [''token'' \<mapsto> resolve_variable ''token'' secret_bar]\<rparr>,
      executor = (\<lambda>cmd w. (0, w))\<rparr>"

definition request_dry_run :: Request where
  "request_dry_run =
     \<lparr>req_tasks = [''deploy''], req_variables = Map.empty, req_dry_run = True\<rparr>"






definition cycle_graph :: graph where
  "cycle_graph =
     [(''A'', TaskDefinition [TaskReference ''B'', TaskCommand [''unused'']]),
      (''B'', TaskDefinition [TaskReference ''A'', TaskCommand [''unused'']])]"

definition preempted_cycle_graph :: graph where
  "preempted_cycle_graph =
     [(''A'', TaskDefinition [TaskReference ''X'', TaskReference ''B'']),
      (''B'', TaskDefinition [TaskReference ''A''])]"

definition unknown_graph :: graph where
  "unknown_graph = [(''test'', TaskDefinition [TaskReference ''unknown''])]"

definition preempted_unknown_graph :: graph where
  "preempted_unknown_graph =
     [(''A'', TaskDefinition [TaskReference ''B'', TaskReference ''N'']),
      (''B'', TaskDefinition [TaskReference ''A''])]"

section \<open>Claims about the resolution of tasks\<close>

subsection \<open>The loop of the resolution\<close>

lemma resolve_steps_acc:
  "resolve_steps g ps acc items =
     (case resolve_steps g ps [] items of Inl e \<Rightarrow> Inl e | Inr r \<Rightarrow> Inr (acc @ r))"
proof (induction items arbitrary: acc)
  case Nil
  show ?case by simp
next
  case (Cons item items)
  show ?case
  proof (cases item)
    case (TaskCommand ss)
    show ?thesis
      using Cons.IH[of "acc @ ss"] Cons.IH[of "ss"]
      by (simp add: TaskCommand split: sum.splits)
  next
    case (TaskReference n)
    show ?thesis
    proof (cases "resolve_task g n (Some ps)")
      case (Inl e)
      then show ?thesis by (simp add: TaskReference)
    next
      case (Inr dep)
      then show ?thesis
        using Cons.IH[of "acc @ steps dep"] Cons.IH[of "steps dep"]
        by (simp add: TaskReference split: sum.splits)
    qed
  qed
qed

lemma resolve_steps_append:
  "resolve_steps g ps acc (xs @ ys) =
     (case resolve_steps g ps acc xs of Inl e \<Rightarrow> Inl e | Inr r \<Rightarrow> resolve_steps g ps r ys)"
proof (induction xs arbitrary: acc)
  case Nil
  show ?case by simp
next
  case (Cons item items)
  show ?case
    by (cases item) (simp_all add: Cons.IH split: sum.splits)
qed



lemma resolve_steps_all_resolve:
  assumes "list_all (resolves g (Some ps)) items"
  shows "\<exists>r. resolve_steps g ps acc items = Inr r"
  using assms
proof (induction items arbitrary: acc)
  case Nil
  show ?case by simp
next
  case (Cons item items)
  then have rest: "\<And>acc. \<exists>r. resolve_steps g ps acc items = Inr r" by simp
  show ?case
  proof (cases item)
    case (TaskCommand ss)
    then show ?thesis using rest by simp
  next
    case (TaskReference n)
    with Cons.prems obtain dep where "resolve_task g n (Some ps) = Inr dep"
      by (cases "resolve_task g n (Some ps)") auto
    then show ?thesis using rest by (simp add: TaskReference)
  qed
qed

lemma resolve_steps_first_failure:
  assumes "TaskReference n \<in> set items"
    and "list_all (resolves g (Some ps)) (takeWhile (\<lambda>i. i \<noteq> TaskReference n) items)"
    and "resolve_task g n (Some ps) = Inl e"
  shows "resolve_steps g ps acc items = Inl e"
proof -
  let ?pre = "takeWhile (\<lambda>i. i \<noteq> TaskReference n) items"
  let ?post = "dropWhile (\<lambda>i. i \<noteq> TaskReference n) items"
  from assms(1) have "?post \<noteq> []" by auto
  then have "hd ?post = TaskReference n"
    using hd_dropWhile[of "\<lambda>i. i \<noteq> TaskReference n" items] by simp
  with \<open>?post \<noteq> []\<close> obtain rest where post: "?post = TaskReference n # rest"
    by (cases ?post) auto
  from resolve_steps_all_resolve[OF assms(2)] obtain r
    where pre: "resolve_steps g ps acc ?pre = Inr r" by blast
  have "resolve_steps g ps acc (?pre @ ?post) = Inl e"
    unfolding resolve_steps_append pre post using assms(3) by simp
  then show ?thesis by simp
qed

lemma reaches_reference_propagates:
  assumes "reaches_reference g (parents_or_empty p) T n"
    and "resolve_task g n (Some (parents_or_empty p @ [T])) = Inl e"
  shows "resolve_task g T p = Inl e"
proof -
  from assms(1) obtain d where notin: "T \<notin> set (parents_or_empty p)"
    and d: "map_of g T = Some d"
    and mem: "TaskReference n \<in> set (def_steps d)"
    and pre: "list_all (resolves g (Some (parents_or_empty p @ [T])))
                (takeWhile (\<lambda>i. i \<noteq> TaskReference n) (def_steps d))"
    by (auto simp: reaches_reference_def split: option.splits)
  from resolve_steps_first_failure[OF mem pre assms(2)]
  have "resolve_steps g (parents_or_empty p @ [T]) [] (def_steps d) = Inl e" .
  with notin d show ?thesis by (simp add: resolve_task.simps)
qed

lemma resolve_steps_failing_reference:
  assumes "TaskReference n \<in> set items" and "isl (resolve_task g n (Some ps))"
  shows "isl (resolve_steps g ps acc items)"
  using assms(1)
proof (induction items arbitrary: acc)
  case Nil
  then show ?case by simp
next
  case (Cons item items)
  show ?case
  proof (cases item)
    case (TaskCommand ss)
    with Cons show ?thesis by simp
  next
    case (TaskReference m)
    show ?thesis
    proof (cases "resolve_task g m (Some ps)")
      case (Inl e)
      with TaskReference show ?thesis by simp
    next
      case (Inr dep)
      with assms(2) have "m \<noteq> n" by auto
      with Cons TaskReference Inr show ?thesis by simp
    qed
  qed
qed

lemma refers_to_failing_reference:
  assumes "refers_to g T n" and "isl (resolve_task g n (Some (parents_or_empty p @ [T])))"
  shows "isl (resolve_task g T p)"
proof -
  from assms(1) obtain d where d: "map_of g T = Some d" and n: "TaskReference n \<in> set (def_steps d)"
    by (auto simp: refers_to_def split: option.splits)
  from resolve_steps_failing_reference[OF n assms(2)]
  have "isl (resolve_steps g (parents_or_empty p @ [T]) [] (def_steps d))" .
  with d show ?thesis
    by (auto simp: resolve_task.simps last_parent_def split: sum.splits)
qed

lemma follows_chain_refers: "follows_chain g ps T chain \<Longrightarrow> refers_chain g T chain"
  by (induction chain arbitrary: ps T)
    (auto simp: reaches_reference_def refers_to_def split: option.splits)

subsection \<open>Expansion is depth-first and keeps the order of the steps\<close>



subsection \<open>The error of a circular dependency\<close>

text \<open>
  Claim C5, as amended. For every graph with a chain of references that leads from a task
  \<open>T\<close> back to a task already on the ancestor path (an ancestor of \<open>T\<close>, \<open>T\<close> itself or an
  earlier task of the chain), the resolution of \<open>T\<close> fails. When the depth-first expansion
  descends along the chain, reaching each of its references (the steps before it
  resolve), the error is \<open>CircularDependencyError\<close> carrying the most recent ancestor and
  the task entered again, and nothing else of the cycle.
\<close>

theorem circular_dependency_names_last_pair:
  assumes "refers_chain g T chain"
    and "last (T # chain) \<in> set (parents_or_empty p @ butlast (T # chain))"
  shows "isl (resolve_task g T p) \<and>
         (follows_chain g (parents_or_empty p) T chain \<longrightarrow>
            resolve_task g T p =
              Inl (CircularDependencyError (last (parents_or_empty p @ butlast (T # chain)))
                     (last (T # chain))))"
proof -
  have fails: "isl (resolve_task g T p)"
    using assms
  proof (induction chain arbitrary: T p)
    case Nil
    then have "T \<in> set (parents_or_empty p)" by simp
    then show ?case
      by (auto simp: resolve_task.simps last_parent_def)
  next
    case (Cons n rest)
    from Cons.prems(1) have ref: "refers_to g T n" and chain: "refers_chain g n rest"
      by simp_all
    from Cons.prems(2)
    have "last (n # rest) \<in>
        set (parents_or_empty (Some (parents_or_empty p @ [T])) @ butlast (n # rest))"
      by simp
    from Cons.IH[OF chain this]
    have "isl (resolve_task g n (Some (parents_or_empty p @ [T])))" .
    from refers_to_failing_reference[OF ref this] show ?case .
  qed
  have error: "resolve_task g T p =
      Inl (CircularDependencyError (last (parents_or_empty p @ butlast (T # chain)))
             (last (T # chain)))"
    if "follows_chain g (parents_or_empty p) T chain"
    using that assms(2)
  proof (induction chain arbitrary: T p)
    case Nil
    then have "T \<in> set (parents_or_empty p)" by simp
    then show ?case
      by (auto simp: resolve_task.simps last_parent_def)
  next
    case (Cons n rest)
    from Cons.prems(1) have reach: "reaches_reference g (parents_or_empty p) T n"
      and chain: "follows_chain g (parents_or_empty (Some (parents_or_empty p @ [T]))) n rest"
      by simp_all
    from Cons.prems(2)
    have "last (n # rest) \<in>
        set (parents_or_empty (Some (parents_or_empty p @ [T])) @ butlast (n # rest))"
      by simp
    from Cons.IH[OF chain this]
    have "resolve_task g n (Some (parents_or_empty p @ [T])) =
        Inl (CircularDependencyError (last (parents_or_empty p @ butlast (T # n # rest)))
               (last (T # n # rest)))"
      by simp
    from reaches_reference_propagates[OF reach this] show ?case .
  qed
  from fails error show ?thesis by blast
qed

theorem circular_dependency_names_last_pair_witness:
  "refers_chain cycle_graph ''A'' [''B'', ''A''] \<and>
   last (''A'' # [''B'', ''A'']) \<in> set (parents_or_empty None @ butlast (''A'' # [''B'', ''A''])) \<and>
   follows_chain cycle_graph (parents_or_empty None) ''A'' [''B'', ''A''] \<and>
   resolve_task cycle_graph ''A'' None = Inl (CircularDependencyError ''B'' ''A'')"
proof -
  have h1: "refers_chain cycle_graph ''A'' [''B'', ''A'']"
    by (simp add: cycle_graph_def refers_to_def)
  have h2: "last (''A'' # [''B'', ''A'']) \<in>
      set (parents_or_empty None @ butlast (''A'' # [''B'', ''A'']))"
    by simp
  have h3: "follows_chain cycle_graph (parents_or_empty None) ''A'' [''B'', ''A'']"
    by (simp add: cycle_graph_def reaches_reference_def)
  from circular_dependency_names_last_pair[OF h1 h2] h3
  have "resolve_task cycle_graph ''A'' None = Inl (CircularDependencyError ''B'' ''A'')"
    by simp
  with h1 h2 h3 show ?thesis by blast
qed

text \<open>
  The claim as stated, for every graph that contains the chain \<open>A \<rightarrow> B \<rightarrow> A\<close>, fails where
  an earlier dependency fails first: here \<open>A\<close> names the unknown task \<open>X\<close> before \<open>B\<close>, and
  the resolution of \<open>A\<close> and of \<open>B\<close> both end with the error of the unknown reference.
\<close>

theorem circular_dependency_counterexample:
  "map_of preempted_cycle_graph ''A'' =
     Some (TaskDefinition [TaskReference ''X'', TaskReference ''B'']) \<and>
   map_of preempted_cycle_graph ''B'' = Some (TaskDefinition [TaskReference ''A'']) \<and>
   resolve_task preempted_cycle_graph ''A'' None =
     Inl (UnknownTaskReferenceError ''X'' ''A'') \<and>
   resolve_task preempted_cycle_graph ''B'' None =
     Inl (UnknownTaskReferenceError ''X'' ''A'')"
  by (simp add: preempted_cycle_graph_def resolve_task.simps last_parent_def)

subsection \<open>The error of an unknown reference\<close>

text \<open>
  Claim C6, as amended. For every graph in which a task \<open>T\<close> refers to a name \<open>N\<close> that is no
  key of the graph, the resolution of \<open>T\<close> fails. When the expansion of \<open>T\<close> reaches the
  reference (the steps before it resolve) and \<open>N\<close> is no ancestor, the error is
  \<open>UnknownTaskReferenceError\<close> carrying the missing name \<open>N\<close> and the referencing task
  \<open>T\<close>.
\<close>

theorem unknown_reference_names_parent:
  assumes "refers_to g T N" and "map_of g N = None"
  shows "isl (resolve_task g T p) \<and>
         (reaches_reference g (parents_or_empty p) T N \<and> N \<notin> set (parents_or_empty p) \<longrightarrow>
            resolve_task g T p = Inl (UnknownTaskReferenceError N T))"
proof -
  have "isl (resolve_task g N (Some (parents_or_empty p @ [T])))"
    using assms(2) by (auto simp: resolve_task.simps last_parent_def split: sum.splits)
  from refers_to_failing_reference[OF assms(1) this]
  have fails: "isl (resolve_task g T p)" .
  have "resolve_task g T p = Inl (UnknownTaskReferenceError N T)"
    if reach: "reaches_reference g (parents_or_empty p) T N"
      and notin: "N \<notin> set (parents_or_empty p)"
  proof -
    from assms obtain d where "map_of g T = Some d"
      by (auto simp: refers_to_def split: option.splits)
    with assms(2) have "N \<noteq> T" by auto
    with assms(2) notin
    have "resolve_task g N (Some (parents_or_empty p @ [T])) =
        Inl (UnknownTaskReferenceError N T)"
      by (simp add: resolve_task.simps last_parent_def)
    from reaches_reference_propagates[OF reach this] show ?thesis .
  qed
  with fails show ?thesis by blast
qed

theorem unknown_reference_names_parent_witness:
  "refers_to unknown_graph ''test'' ''unknown'' \<and>
   map_of unknown_graph ''unknown'' = None \<and>
   reaches_reference unknown_graph (parents_or_empty None) ''test'' ''unknown'' \<and>
   ''unknown'' \<notin> set (parents_or_empty None) \<and>
   resolve_task unknown_graph ''test'' None =
     Inl (UnknownTaskReferenceError ''unknown'' ''test'')"
proof -
  have h1: "refers_to unknown_graph ''test'' ''unknown''"
    by (simp add: unknown_graph_def refers_to_def)
  have h2: "map_of unknown_graph ''unknown'' = None"
    by (simp add: unknown_graph_def)
  have h3: "reaches_reference unknown_graph (parents_or_empty None) ''test'' ''unknown''"
    by (simp add: unknown_graph_def reaches_reference_def)
  have h4: "''unknown'' \<notin> set (parents_or_empty None)"
    by simp
  from unknown_reference_names_parent[OF h1 h2, of None] h3 h4
  have "resolve_task unknown_graph ''test'' None =
      Inl (UnknownTaskReferenceError ''unknown'' ''test'')"
    by blast
  with h1 h2 h3 h4 show ?thesis by blast
qed

text \<open>
  The claim as stated, for every task whose steps name an absent task, fails where an
  earlier step fails first: here \<open>A\<close> names \<open>B\<close> before the absent \<open>N\<close>, \<open>B\<close> leads
  back to \<open>A\<close>, and the resolution of \<open>A\<close> ends with the error of the cycle.
\<close>

theorem unknown_reference_counterexample:
  "map_of preempted_unknown_graph ''A'' =
     Some (TaskDefinition [TaskReference ''B'', TaskReference ''N'']) \<and>
   map_of preempted_unknown_graph ''N'' = None \<and>
   resolve_task preempted_unknown_graph ''A'' None =
     Inl (CircularDependencyError ''B'' ''A'')"
  by (simp add: preempted_unknown_graph_def resolve_task.simps last_parent_def
      reaches_reference_def)

section \<open>Claims about variables\<close>

text \<open>Without \<^verbatim>\<open>dry_run\<close>, \<^verbatim>\<open>Variable.get\<close> is the getter.\<close>

lemma Variable_get_not_dry_run: "Variable_get v s override False = getter v s override"
  by (simp add: Variable_get_def split: sum.splits)





text \<open>
  Claim C3, as amended. For the variable resolved from any definition and any override, the
  getter returns the override as it is, whatever the environment, the files and the
  default; \<^verbatim>\<open>Variable.get\<close> returns it as it is unless \<^verbatim>\<open>dry_run\<close> is true and the variable
  is secret, and then returns as many \<^verbatim>\<open>*\<close> as the override has characters.
\<close>

theorem override_verbatim_unless_masked:
  "getter (resolve_variable name d) w (Some ov) = Inr ov \<and>
   Variable_get (resolve_variable name d) w (Some ov) dry_run =
     Inr (if dry_run \<and> var_secret d then replicate (length ov) CHR ''*'' else ov)"
  by (simp add: Variable_get_def resolve_variable_def getter_factory_def)

text \<open>
  The claim as stated, that \<^verbatim>\<open>Variable.get(override, dry_run)\<close> returns the override for both
  values of \<^verbatim>\<open>dry_run\<close>, fails for a secret variable: the override \<^verbatim>\<open>value\<close> comes back as
  five stars.
\<close>

theorem override_masked_counterexample:
  "Variable_get
     (resolve_variable ''foo''
        \<lparr>var_default = Some ''bar'', var_env = None, var_file = None, var_secret = True\<rparr>)
     empty_world (Some ''value'') True = Inr ''*****''"
  by (simp add: Variable_get_def resolve_variable_def getter_factory_def)

text \<open>
  Claim C4. For every variable, whatever its getter, and every value \<open>x\<close> that the getter
  yields: when the variable is secret and \<^verbatim>\<open>dry_run\<close> is true, \<^verbatim>\<open>Variable.get\<close> returns a
  string of \<^verbatim>\<open>*\<close> only, as long as \<open>x\<close>; when \<^verbatim>\<open>dry_run\<close> is false or the variable is not
  secret, it returns \<open>x\<close>.
\<close>

theorem secret_masked_under_dry_run:
  assumes "getter v s override = Inr x"
  shows "Variable_get v s override dry_run =
           Inr (if dry_run \<and> secret v then replicate (length x) CHR ''*'' else x)"
  using assms by (simp add: Variable_get_def)

theorem secret_masked_under_dry_run_witness:
  "getter (resolve_variable ''foo''
        \<lparr>var_default = Some ''bar'', var_env = None, var_file = None, var_secret = True\<rparr>)
     empty_world None = Inr ''bar'' \<and>
   Variable_get (resolve_variable ''foo''
        \<lparr>var_default = Some ''bar'', var_env = None, var_file = None, var_secret = True\<rparr>)
     empty_world None True = Inr ''***'' \<and>
   Variable_get (resolve_variable ''foo''
        \<lparr>var_default = Some ''bar'', var_env = None, var_file = None, var_secret = True\<rparr>)
     empty_world None False = Inr ''bar''"
proof -
  let ?v = "resolve_variable ''foo''
        \<lparr>var_default = Some ''bar'', var_env = None, var_file = None, var_secret = True\<rparr>"
  let ?w = "empty_world"
  have h: "getter ?v ?w None = Inr ''bar''"
    by (simp add: resolve_variable_def getter_factory_def)
  have s: "secret ?v" by (simp add: resolve_variable_def)
  from secret_masked_under_dry_run[OF h, of True] secret_masked_under_dry_run[OF h, of False] h s
  show ?thesis by simp
qed


section \<open>Claims about the service\<close>

lemma sublist_join:
  assumes "x \<in> set xs"
  shows "sublist x (join sep xs)"
  using assms
proof (induction sep xs rule: join.induct)
  case (1 sep)
  then show ?case by simp
next
  case (2 sep x')
  then show ?case by simp
next
  case (3 sep x' y ys)
  show ?case
  proof (cases "x = x'")
    case True
    have "join sep (x' # y # ys) = [] @ x' @ (sep @ join sep (y # ys))" by simp
    then show ?thesis unfolding True sublist_def by blast
  next
    case False
    with 3 have "sublist x (join sep (y # ys))" by simp
    then obtain ps ss where "join sep (y # ys) = ps @ x @ ss"
      unfolding sublist_def by blast
    then have "join sep (x' # y # ys) = (x' @ sep @ ps) @ x @ ss" by simp
    then show ?thesis unfolding sublist_def by blast
  qed
qed

lemma sublist_list_repr:
  assumes "x \<in> set xs"
  shows "sublist (str_repr x) (list_repr str_repr xs)"
proof -
  from assms have "str_repr x \<in> set (map str_repr xs)" by simp
  from sublist_join[OF this] obtain ps ss
    where "join '', '' (map str_repr xs) = ps @ str_repr x @ ss"
    unfolding sublist_def by blast
  then have "list_repr str_repr xs = (''['' @ ps) @ str_repr x @ (ss @ '']'')"
    by (simp add: list_repr_def)
  then show ?thesis unfolding sublist_def by blast
qed

text \<open>
  Claim C8. When some requested name is no task of the configuration,
  \<^verbatim>\<open>Service.execute\<close> returns 1 and leaves the state of the run as it was but for one line
  more on \<^verbatim>\<open>stderr\<close>: nothing is written to \<^verbatim>\<open>stdout\<close>, the executor is given no command and
  the system is untouched, also for the requested names that are tasks. The line is the
  message built from all the missing names, and each of them stands in it (its
  \<^verbatim>\<open>repr\<close> when they are several).
\<close>

theorem unknown_tasks_reported_before_running:
  assumes "n \<in> set (req_tasks request)" and "cfg_tasks (config self) n = None"
  shows "execute str_repr self request st =
           (Inr 1, st\<lparr>stderr := stderr st @
                      [tasks_do_not_exist str_repr (unknown_tasks self request)]\<rparr>) \<and>
         (\<forall>m \<in> set (req_tasks request). cfg_tasks (config self) m = None \<longrightarrow>
            sublist (if length (unknown_tasks self request) > 1 then str_repr m else m)
              (tasks_do_not_exist str_repr (unknown_tasks self request)))"
proof -
  let ?u = "unknown_tasks self request"
  have filt: "filter (\<lambda>task_name. task_name \<notin> dom (cfg_tasks (config self))) (req_tasks request) = ?u"
    by (simp add: unknown_tasks_def dom_def)
  from assms have ne: "?u \<noteq> []"
    by (auto simp: unknown_tasks_def filter_empty_conv)
  have exec: "execute str_repr self request st =
      (Inr 1, st\<lparr>stderr := stderr st @ [tasks_do_not_exist str_repr ?u]\<rparr>)"
    unfolding execute_def filt Let_def using ne by (simp add: Output_write_error_def)
  have names: "sublist (if length ?u > 1 then str_repr m else m) (tasks_do_not_exist str_repr ?u)"
    if m: "m \<in> set (req_tasks request)" "cfg_tasks (config self) m = None" for m
  proof (cases "length ?u > 1")
    case True
    from m have "m \<in> set ?u" by (simp add: unknown_tasks_def)
    from sublist_list_repr[OF this, of str_repr] obtain ps ss
      where "list_repr str_repr ?u = ps @ str_repr m @ ss"
      unfolding sublist_def by blast
    then have "tasks_do_not_exist str_repr ?u =
        (''task: error: tasks do not exist: '' @ ps) @ str_repr m @ ss"
      using True by (simp add: tasks_do_not_exist_def)
    then show ?thesis using True unfolding sublist_def by (simp only: if_True) blast
  next
    case False
    from m have mem: "m \<in> set ?u" by (simp add: unknown_tasks_def)
    from False ne obtain x where x: "?u = [x]"
      by (cases ?u) (auto simp: Suc_less_eq)
    with mem have "x = m" by simp
    with x have "tasks_do_not_exist str_repr ?u =
        (''task: error: task do not exist: '' @ [CHR 0x27]) @ m @ [CHR 0x27]"
      by (simp add: tasks_do_not_exist_def)
    then show ?thesis using False unfolding sublist_def by (simp only: if_False) blast
  qed
  from exec names show ?thesis by blast
qed

theorem unknown_tasks_reported_before_running_witness:
  "''unknown-task-1'' \<in> set (req_tasks request_unknown) \<and>
   cfg_tasks (config no_tasks) ''unknown-task-1'' = None \<and>
   execute quoted no_tasks request_unknown (start (0::nat)) =
     (Inr 1,
      \<lparr>stdout = [],
       stderr = [''task: error: tasks do not exist: ['' @ quoted ''unknown-task-1'' @ '', '' @
                 quoted ''unknown-task-2'' @ '']''],
       calls = [], system = 0\<rparr>) \<and>
   sublist (quoted ''unknown-task-2'')
     (tasks_do_not_exist quoted (unknown_tasks no_tasks request_unknown))"
proof -
  have h1: "''unknown-task-1'' \<in> set (req_tasks request_unknown)"
    by (simp add: request_unknown_def)
  have h2: "cfg_tasks (config no_tasks) ''unknown-task-1'' = None"
    by (simp add: no_tasks_def)
  have u: "unknown_tasks no_tasks request_unknown = [''unknown-task-1'', ''unknown-task-2'']"
    by (simp add: unknown_tasks_def no_tasks_def request_unknown_def)
  have m: "''unknown-task-2'' \<in> set (req_tasks request_unknown)"
    "cfg_tasks (config no_tasks) ''unknown-task-2'' = None"
    by (simp_all add: request_unknown_def no_tasks_def)
  from unknown_tasks_reported_before_running[OF h1 h2, of quoted "start (0::nat)"] m
  have "execute quoted no_tasks request_unknown (start (0::nat)) =
      (Inr 1, (start (0::nat))\<lparr>stderr := stderr (start (0::nat)) @
         [tasks_do_not_exist quoted (unknown_tasks no_tasks request_unknown)]\<rparr>)"
    and "sublist (quoted ''unknown-task-2'')
      (tasks_do_not_exist quoted (unknown_tasks no_tasks request_unknown))"
    by (auto simp: u)
  with h1 h2 show ?thesis
    by (simp add: u start_def tasks_do_not_exist_def list_repr_def)
qed





lemma replace_variables_set_secrets:
  "replace_variables (set_secrets b cfg) s ov step names = replace_variables cfg s ov step names"
proof (induction names arbitrary: step)
  case Nil
  show ?case by simp
next
  case (Cons n names)
  show ?case
    by (cases "cfg_variables cfg n")
      (simp_all add: set_secrets_def[of b cfg] Variable_get_not_dry_run Cons.IH[unfolded set_secrets_def]
        split: sum.splits)
qed

lemma get_task_steps_set_secrets:
  "get_task_steps (set_secrets b cfg) s ov resolved xs = get_task_steps cfg s ov resolved xs"
  by (induction xs arbitrary: resolved)
    (simp_all add: replace_variables_set_secrets split: sum.splits)

lemma get_task_set_secrets: "get_task (set_secrets b cfg) s name ov = get_task cfg s name ov"
proof -
  have "cfg_tasks (set_secrets b cfg) = cfg_tasks cfg" by (simp add: set_secrets_def)
  then show ?thesis
    by (simp add: get_task_def get_task_steps_set_secrets split: option.splits)
qed

lemma run_commands_dry_run:
  assumes "req_dry_run request"
  shows "run_commands self request task_name cmds st = (None, st\<lparr>stdout := stdout st @ cmds\<rparr>)"
  using assms by (induction cmds arbitrary: st) (simp_all add: Output_write_def)

lemma run_tasks_dry_run:
  assumes "req_dry_run request"
    and "\<forall>n \<in> set names. \<exists>t. get_task (config self) (system st) n (req_variables request) = Inr t"
  shows "run_tasks self request names st =
           (Inr 0, st\<lparr>stdout := stdout st @
              concat (map (resolved_commands (config self) (system st) (req_variables request))
                names)\<rparr>)"
  using assms(2)
proof (induction names arbitrary: st)
  case Nil
  show ?case by simp
next
  case (Cons n names)
  then obtain t where t: "get_task (config self) (system st) n (req_variables request) = Inr t"
    by auto
  let ?st1 = "st\<lparr>stdout := stdout st @ steps t\<rparr>"
  have "\<forall>n \<in> set names. \<exists>t.
      get_task (config self) (system ?st1) n (req_variables request) = Inr t"
    using Cons.prems by simp
  from Cons.IH[OF this] t show ?case
    by (simp add: run_commands_dry_run[OF assms(1)] resolved_commands_def)
qed

text \<open>
  Claim C10. \<^verbatim>\<open>Config.get_task\<close> calls \<^verbatim>\<open>Variable.get\<close> without \<^verbatim>\<open>dry_run\<close>: the value put in
  place of a placeholder is the value the getter yields, whatever the secret flag; the
  task that \<^verbatim>\<open>get_task\<close> returns does not change when the secret flags do; and in a dry run
  in which \<^verbatim>\<open>get_task\<close> succeeds for every requested task, \<^verbatim>\<open>Service.execute\<close> returns 0
  and writes to \<^verbatim>\<open>stdout\<close> exactly the commands that \<^verbatim>\<open>get_task\<close> returns, the values of
  secret variables in them as they are.
\<close>

theorem dry_run_shows_unmasked_values:
  "(cfg_variables cfg n = Some v \<and> getter v s (ov n) = Inr x \<longrightarrow>
      replace_variables cfg s ov step (n # rest) =
        replace_variables cfg s ov (replace_str (placeholder n) x step) rest) \<and>
   get_task (set_secrets b cfg) s name ov = get_task cfg s name ov \<and>
   (req_dry_run request \<and>
    (\<forall>m \<in> set (req_tasks request).
       \<exists>t. get_task (config self) (system st) m (req_variables request) = Inr t) \<longrightarrow>
      execute str_repr self request st =
        (Inr 0, st\<lparr>stdout := stdout st @
           concat (map (resolved_commands (config self) (system st) (req_variables request))
             (req_tasks request))\<rparr>))"
proof (intro conjI impI)
  assume "cfg_variables cfg n = Some v \<and> getter v s (ov n) = Inr x"
  then show "replace_variables cfg s ov step (n # rest) =
        replace_variables cfg s ov (replace_str (placeholder n) x step) rest"
    by (simp add: Variable_get_not_dry_run)
next
  show "get_task (set_secrets b cfg) s name ov = get_task cfg s name ov"
    by (rule get_task_set_secrets)
next
  assume a: "req_dry_run request \<and>
    (\<forall>m \<in> set (req_tasks request).
       \<exists>t. get_task (config self) (system st) m (req_variables request) = Inr t)"
  then have "\<forall>m \<in> set (req_tasks request). m \<in> dom (cfg_tasks (config self))"
    by (auto simp: get_task_def split: option.splits)
  then have "filter (\<lambda>task_name. task_name \<notin> dom (cfg_tasks (config self)))
      (req_tasks request) = []"
    by (auto simp: filter_empty_conv)
  then show "execute str_repr self request st =
        (Inr 0, st\<lparr>stdout := stdout st @
           concat (map (resolved_commands (config self) (system st) (req_variables request))
             (req_tasks request))\<rparr>)"
    using a by (simp add: execute_def run_tasks_dry_run)
qed

theorem dry_run_shows_unmasked_values_witness:
  "secret (resolve_variable ''token'' secret_bar :: world Variable) \<and>
   cfg_variables (config secret_service) ''token'' = Some (resolve_variable ''token'' secret_bar) \<and>
   getter (resolve_variable ''token'' secret_bar) empty_world None = Inr ''bar'' \<and>
   replace_variables (config secret_service) empty_world Map.empty ''login ${var.token}''
     [''token''] = Inr ''login bar'' \<and>
   req_dry_run request_dry_run \<and>
   get_task (config secret_service) empty_world ''deploy'' Map.empty =
     Inr (Task [''login bar'']) \<and>
   execute quoted secret_service request_dry_run (start empty_world) =
     (Inr 0, \<lparr>stdout = [''login bar''], stderr = [], calls = [], system = empty_world\<rparr>)"
proof -
  let ?v = "resolve_variable ''token'' secret_bar :: world Variable"
  have s: "secret ?v"
    by (simp add: resolve_variable_def secret_bar_def)
  have h1: "cfg_variables (config secret_service) ''token'' = Some ?v"
    "getter ?v empty_world None = Inr ''bar''"
    by (simp_all add: secret_service_def resolve_variable_def secret_bar_def getter_factory_def)
  have r: "replace_str (placeholder ''token'') ''bar'' ''login ${var.token}'' = ''login bar''"
    by (simp add: replace_str.simps placeholder_def)
  have f: "findall ''login ${var.token}'' = [''token'']"
    by (simp add: findall.simps VARIABLE_PATTERN_match_def is_name_char_def)
  have g: "get_task (config secret_service) empty_world ''deploy'' Map.empty =
      Inr (Task [''login bar''])"
    by (simp add: get_task_def secret_service_def f r Variable_get_def resolve_variable_def
        getter_factory_def secret_bar_def)
  have h2: "req_dry_run request_dry_run \<and>
      (\<forall>m \<in> set (req_tasks request_dry_run).
         \<exists>t. get_task (config secret_service) (system (start empty_world)) m
                (req_variables request_dry_run) = Inr t)"
    using g by (simp add: request_dry_run_def start_def)
  note inst = dry_run_shows_unmasked_values[of "config secret_service" "''token''" ?v empty_world
      Map.empty "''bar''" "''login ${var.token}''" "[]" False "''deploy''" request_dry_run
      secret_service "start empty_world" quoted]
  from inst h1 have a: "replace_variables (config secret_service) empty_world Map.empty
      ''login ${var.token}'' [''token''] = Inr ''login bar''"
    by (simp add: r)
  from inst h2 have "execute quoted secret_service request_dry_run (start empty_world) =
      (Inr 0, (start empty_world)\<lparr>stdout := stdout (start empty_world) @
         concat (map (resolved_commands (config secret_service) (system (start empty_world))
           (req_variables request_dry_run)) (req_tasks request_dry_run))\<rparr>)"
    by blast
  then have b: "execute quoted secret_service request_dry_run (start empty_world) =
      (Inr 0, \<lparr>stdout = [''login bar''], stderr = [], calls = [], system = empty_world\<rparr>)"
    using g by (simp add: request_dry_run_def start_def resolved_commands_def)
  from h2 have d: "req_dry_run request_dry_run" by blast
  from s h1 a d g b show ?thesis by blast
qed

section \<open>Claims about the substitution of variables\<close>

subsection \<open>The pattern and the reading of a step\<close>

lemma not_name_char [simp]: "\<not> is_name_char CHR ''}''" "\<not> is_name_char CHR ''$''"
  by (simp_all add: is_name_char_def)







subsection \<open>One replacement, on a read step\<close>









subsection \<open>All replacements of a step\<close>














subsection \<open>Every placeholder is replaced by the value of its variable\<close>





end
